theory Spec2Isabelle
  imports Main "HOL-Library.Sublist"
begin

section \<open>Strings of the runtime\<close>

text \<open>
  A string of the widget is a sequence of UTF-16 code units, as \<open>length\<close>,
  \<open>split('')\<close> and \<open>charCodeAt\<close> count them. \<open>units\<close> writes a literal.
\<close>

type_synonym jsstring = "nat list"

definition units :: "string \<Rightarrow> jsstring" where
  "units s = map of_char s"

text \<open>
  \<open>String.prototype.trim\<close> removes the white space and line terminator code units of
  the language definition from both ends.
\<close>

definition white_space :: "nat \<Rightarrow> bool" where
  "white_space c =
     (c \<in> {9, 10, 11, 12, 13, 32, 160, 5760, 8232, 8233, 8239, 8287, 12288, 65279}
      \<or> (8192 \<le> c \<and> c \<le> 8202))"

definition trim :: "jsstring \<Rightarrow> jsstring" where
  "trim s = rev (dropWhile white_space (rev (dropWhile white_space s)))"

text \<open>Values that the code can throw or that a promise can reject with.\<close>

datatype exn = SyntaxError | RangeError | Thrown jsstring

section \<open>The data model of SearchBar.tsx\<close>

text \<open>
  The fields of a search result that the component reads; \<open>None\<close> is an absent
  optional field.
\<close>

record address =
  country_code :: "jsstring option"
  postcode :: "jsstring option"

record SearchResult =
  display_name :: jsstring
  address :: "address option"

text \<open>
  The four \<open>useState\<close> cells of the component, followed by the traces of what the
  component does to its collaborators: the arguments handed to the debounced invoker, the
  queries sent to \<open>searchLocation\<close>, the lines written by \<open>console.error\<close> and the
  results passed to \<open>onLocationSelect\<close>.
\<close>

record widget =
  searchQuery :: jsstring
  searchResults :: "SearchResult list"
  isLoading :: bool
  selectedIndex :: int
  debounce_calls :: "jsstring list"
  geocoding_calls :: "jsstring list"
  console :: "(jsstring \<times> exn) list"
  selections :: "SearchResult list"

definition initial :: widget where
  "initial = \<lparr>searchQuery = [], searchResults = [], isLoading = False, selectedIndex = - 1,
     debounce_calls = [], geocoding_calls = [], console = [], selections = []\<rparr>"

section \<open>The search callback\<close>

text \<open>
  The asynchronous callback given to \<open>useDebounce\<close> runs in two pieces. \<open>search_begin\<close>
  is the piece up to the \<open>await\<close>: it either returns at once (blank query) or sends the
  query and suspends. \<open>search_resume\<close> is the piece that runs when the promise of
  \<open>searchLocation\<close> settles, with \<open>Inr results\<close> for a fulfilled and \<open>Inl error\<close> for
  a rejected promise; its first component is the exception that leaves the callback.
\<close>

datatype suspension = Returned | Awaiting jsstring

definition search_begin :: "jsstring \<Rightarrow> widget \<Rightarrow> suspension \<times> widget" where
  "search_begin query w =
     (if trim query = [] then (Returned, w\<lparr>searchResults := []\<rparr>)
      else (Awaiting query,
            w\<lparr>isLoading := True, geocoding_calls := geocoding_calls w @ [query]\<rparr>))"

definition search_resume :: "exn + SearchResult list \<Rightarrow> widget \<Rightarrow> exn option \<times> widget" where
  "search_resume outcome w =
     (case (case outcome of
              Inr results \<Rightarrow> (None, w\<lparr>searchResults := results\<rparr>)
            | Inl error \<Rightarrow>
                (None, w\<lparr>console := console w @ [(units ''Search failed:'', error)],
                          searchResults := []\<rparr>))
      of (raised, w') \<Rightarrow> (raised, w'\<lparr>isLoading := False\<rparr>))"

text \<open>
  One whole run of the callback against a geocoding client that answers \<open>client query\<close>,
  with nothing else happening while the callback is suspended.
\<close>

definition runSearch ::
  "(jsstring \<Rightarrow> exn + SearchResult list) \<Rightarrow> jsstring \<Rightarrow> widget \<Rightarrow> exn option \<times> widget" where
  "runSearch client query w =
     (case search_begin query w of
        (Returned, w') \<Rightarrow> (None, w')
      | (Awaiting q, w') \<Rightarrow> search_resume (client q) w')"

section \<open>The event handlers\<close>

definition handleInputChange :: "jsstring \<Rightarrow> widget \<Rightarrow> widget" where
  "handleInputChange v w =
     w\<lparr>searchQuery := v, selectedIndex := - 1, debounce_calls := debounce_calls w @ [v]\<rparr>"

definition handleSelectResult :: "SearchResult \<Rightarrow> widget \<Rightarrow> widget" where
  "handleSelectResult result w =
     w\<lparr>selections := selections w @ [result], searchResults := [], searchQuery := [],
       selectedIndex := - 1\<rparr>"

definition onSelect :: "widget \<Rightarrow> widget" where
  "onSelect w =
     (if selectedIndex w \<ge> 0 \<and> selectedIndex w < int (length (searchResults w))
      then handleSelectResult (searchResults w ! nat (selectedIndex w)) w
      else w)"

definition onEscape :: "widget \<Rightarrow> widget" where
  "onEscape w = w\<lparr>searchResults := [], selectedIndex := - 1\<rparr>"

text \<open>
  The events that reach the component. \<open>Invoke q\<close> is the debounce hook calling the
  callback with \<open>q\<close>; \<open>Settle q outcome\<close> is the lookup that was sent for \<open>q\<close>
  settling (the code keeps no record of \<open>q\<close>, so the step ignores it); \<open>Click r\<close>
  is a click on the entry of \<open>r\<close>; \<open>Enter\<close>, \<open>Escape\<close> and \<open>Navigate i\<close> are the
  keyboard hook calling the \<open>onSelect\<close>, the \<open>onEscape\<close> and the \<open>setSelectedIndex\<close>
  it was given.
\<close>

datatype event =
    Change jsstring
  | Invoke jsstring
  | Settle jsstring "exn + SearchResult list"
  | Click SearchResult
  | Enter
  | Escape
  | Navigate int

fun step :: "event \<Rightarrow> widget \<Rightarrow> widget" where
  "step (Change v) w = handleInputChange v w"
| "step (Invoke q) w = snd (search_begin q w)"
| "step (Settle q outcome) w = snd (search_resume outcome w)"
| "step (Click r) w = handleSelectResult r w"
| "step Enter w = onSelect w"
| "step Escape w = onEscape w"
| "step (Navigate i) w = w\<lparr>selectedIndex := i\<rparr>"

fun run :: "event list \<Rightarrow> widget \<Rightarrow> widget" where
  "run [] w = w"
| "run (e # es) w = run es (step e w)"

section \<open>What the runtime supplies\<close>

text \<open>
  \<open>toUpperCase\<close> and \<open>toLowerCase\<close> are built into the runtime; their Unicode tables
  are no part of the repository, so the transforms take them as a parameter. The regular
  expression engine folds case code unit by code unit with \<open>canonicalize\<close>, which the
  language definition derives from \<open>toUpperCase\<close> (flag \<open>i\<close> without flag \<open>u\<close>).
  An engine also refuses a pattern that is beyond its capacity, whatever the pattern says:
  \<open>pattern_error\<close> gives the error that the \<open>RegExp\<close> constructor throws then, and
  \<open>None\<close> for a pattern the engine has room for. The bound differs between engines.
\<close>

record runtime =
  toUpperCase :: "jsstring \<Rightarrow> jsstring"
  toLowerCase :: "jsstring \<Rightarrow> jsstring"
  pattern_error :: "jsstring \<Rightarrow> exn option"

definition canonicalize :: "runtime \<Rightarrow> nat \<Rightarrow> nat" where
  "canonicalize U ch =
     (case toUpperCase U [ch] of
        [cu] \<Rightarrow> if ch \<ge> 128 \<and> cu < 128 then ch else cu
      | _ \<Rightarrow> ch)"

text \<open>
  The tables restricted to Basic Latin, where upper and lower case differ by 32. They are
  the runtime's tables on every string of code units below 128. The engine of
  \<open>basic_latin\<close> refuses patterns of 32768 code units or more.
\<close>

definition upper_latin :: "nat \<Rightarrow> nat" where
  "upper_latin c = (if 97 \<le> c \<and> c \<le> 122 then c - 32 else c)"

definition lower_latin :: "nat \<Rightarrow> nat" where
  "lower_latin c = (if 65 \<le> c \<and> c \<le> 90 then c + 32 else c)"

definition basic_latin :: runtime where
  "basic_latin =
     \<lparr>toUpperCase = map upper_latin, toLowerCase = map lower_latin,
      pattern_error = (\<lambda>pattern. if 32768 \<le> length pattern then Some SyntaxError else None)\<rparr>"

definition latin_exact :: "runtime \<Rightarrow> bool" where
  "latin_exact U \<longleftrightarrow>
     (\<forall>s. (\<forall>c \<in> set s. c < 128) \<longrightarrow>
        toUpperCase U s = map upper_latin s \<and> toLowerCase U s = map lower_latin s)"

definition letter :: "nat \<Rightarrow> bool" where
  "letter c \<longleftrightarrow> (65 \<le> c \<and> c \<le> 90) \<or> (97 \<le> c \<and> c \<le> 122)"

section \<open>getFlagEmoji\<close>

text \<open>
  \<open>String.fromCodePoint\<close> throws a \<open>RangeError\<close> above U+10FFFF and writes a code point
  above U+FFFF as a surrogate pair. \<open>codePoints\<close> reads a string back code point by code
  point, as the string iterator does.
\<close>

definition utf16 :: "nat \<Rightarrow> jsstring" where
  "utf16 cp =
     (if cp < 65536 then [cp]
      else [55296 + (cp - 65536) div 1024, 56320 + (cp - 65536) mod 1024])"

fun fromCodePoint :: "nat list \<Rightarrow> exn + jsstring" where
  "fromCodePoint [] = Inr []"
| "fromCodePoint (cp # cps) =
     (if cp > 1114111 then Inl RangeError
      else (case fromCodePoint cps of Inl e \<Rightarrow> Inl e | Inr s \<Rightarrow> Inr (utf16 cp @ s)))"

fun codePoints :: "jsstring \<Rightarrow> nat list" where
  "codePoints (h # l # s) =
     (if 55296 \<le> h \<and> h < 56320 \<and> 56320 \<le> l \<and> l < 57344
      then (65536 + (h - 55296) * 1024 + (l - 56320)) # codePoints s
      else h # codePoints (l # s))"
| "codePoints s = s"

text \<open>
  \<open>None\<close> is the absent (\<open>undefined\<close>) country code; the empty string is falsy as well.
  \<open>split('')\<close> yields the code units one by one and \<open>charCodeAt(0)\<close> reads each.
\<close>

definition getFlagEmoji :: "runtime \<Rightarrow> jsstring option \<Rightarrow> exn + jsstring" where
  "getFlagEmoji U countryCode =
     (case countryCode of
        None \<Rightarrow> Inr []
      | Some cc \<Rightarrow>
          if cc = [] then Inr []
          else fromCodePoint (map (\<lambda>char. 127397 + char) (toUpperCase U cc)))"

section \<open>highlightMatch\<close>

text \<open>
  The character class of the \<open>replace\<close> call, \<open>. * + ? ^ $ { } ( ) | [ ]\<close> and the
  backslash, by code unit; each occurrence is replaced by a backslash (92) and itself.
\<close>

definition escaped_class :: "nat set" where
  "escaped_class = {46, 42, 43, 63, 94, 36, 123, 125, 40, 41, 124, 91, 93, 92}"

definition escapeQuery :: "jsstring \<Rightarrow> jsstring" where
  "escapeQuery query = concat (map (\<lambda>c. if c \<in> escaped_class then [92, c] else [c]) query)"

text \<open>
  The \<open>RegExp\<close> constructor, on the patterns the component can build: one capturing group
  around a sequence of pattern characters and identity escapes (a backslash before a
  syntax character of the grammar: \<open>^ $ . * + ? ( ) [ ] { } |\<close> and the backslash).
  Every other pattern is reported as a \<open>SyntaxError\<close>, which is at least what the
  grammar rejects. A pattern of the grammar is still refused when the engine has no room
  for it.
\<close>

definition SyntaxCharacter :: "nat set" where
  "SyntaxCharacter = {94, 36, 92, 46, 42, 43, 63, 40, 41, 91, 93, 123, 125, 124}"

datatype regexp = Capture jsstring

fun literal_atoms :: "jsstring \<Rightarrow> jsstring option" where
  "literal_atoms [] = Some []"
| "literal_atoms [c] = (if c \<in> SyntaxCharacter then None else Some [c])"
| "literal_atoms (c # d # s) =
     (if c = 92 then
        (if d \<in> SyntaxCharacter then map_option ((#) d) (literal_atoms s) else None)
      else if c \<in> SyntaxCharacter then None
      else map_option ((#) c) (literal_atoms (d # s)))"

definition RegExp :: "runtime \<Rightarrow> jsstring \<Rightarrow> exn + regexp" where
  "RegExp U pattern =
     (case pattern of
        [] \<Rightarrow> Inl SyntaxError
      | c # s \<Rightarrow>
          if c = 40 \<and> s \<noteq> [] \<and> last s = 41 then
            (case literal_atoms (butlast s) of
               Some lit \<Rightarrow>
                 (case pattern_error U pattern of
                    Some error \<Rightarrow> Inl error
                  | None \<Rightarrow> Inr (Capture lit))
             | None \<Rightarrow> Inl SyntaxError)
          else Inl SyntaxError)"

text \<open>
  \<open>String.prototype.split\<close> with a regular expression. \<open>occurs_at f lit S q\<close> says
  that the literal occurs in \<open>S\<close> at index \<open>q\<close> when code units are compared after
  \<open>f\<close>. \<open>match_at\<close> is the sticky match of the literal at index \<open>q\<close> under the
  case folding of the engine and gives the end of the match.
  \<open>split_loop\<close> is the loop of the language definition: \<open>p\<close> is the end of the last
  match, \<open>q\<close> the index tried next, \<open>A\<close> the pieces so far; a match pushes the piece
  before it and the text captured by the group.
\<close>

definition occurs_at :: "(nat \<Rightarrow> nat) \<Rightarrow> jsstring \<Rightarrow> jsstring \<Rightarrow> nat \<Rightarrow> bool" where
  "occurs_at f lit S q \<longleftrightarrow>
     q + length lit \<le> length S \<and> map f (take (length lit) (drop q S)) = map f lit"

definition match_at :: "runtime \<Rightarrow> jsstring \<Rightarrow> jsstring \<Rightarrow> nat \<Rightarrow> nat option" where
  "match_at U lit S q =
     (if occurs_at (canonicalize U) lit S q then Some (q + length lit) else None)"

function split_loop ::
  "runtime \<Rightarrow> jsstring \<Rightarrow> jsstring \<Rightarrow> nat \<Rightarrow> nat \<Rightarrow> jsstring list \<Rightarrow> jsstring list" where
  "split_loop U lit S p q A =
     (if q < length S then
        (case match_at U lit S q of
           None \<Rightarrow> split_loop U lit S p (q + 1) A
         | Some e \<Rightarrow>
             if e = p then split_loop U lit S p (q + 1) A
             else split_loop U lit S e e
                    (A @ [take (q - p) (drop p S), take (e - q) (drop q S)]))
      else A @ [drop p S])"
  by pat_completeness auto
termination
  by (relation "measure (\<lambda>(U, lit, S, p, q, A). 2 * (length S - q) + (if p = q then 0 else 1))")
     (auto simp: match_at_def occurs_at_def less_Suc_eq_le Suc_le_eq split: if_splits
        dest!: length_pos_if_in_set intro!: diff_less_mono2)

declare split_loop.simps [simp del]

definition split_regexp :: "runtime \<Rightarrow> regexp \<Rightarrow> jsstring \<Rightarrow> jsstring list" where
  "split_regexp U r S =
     (case r of Capture lit \<Rightarrow>
        if S = [] then (if lit = [] then [] else [S])
        else split_loop U lit S 0 0 [])"

text \<open>
  What \<open>highlightMatch\<close> returns: the text itself, or one span per piece, flagged when it
  is drawn as a match. \<open>highlight_try\<close> is the body of the \<open>try\<close> block and
  \<open>highlight_catch\<close> the \<open>catch\<close> block; the second component of their results is
  what is written with \<open>console.error\<close>.
\<close>

datatype rendering = Text jsstring | Spans "(bool \<times> jsstring) list"

definition highlight_try :: "runtime \<Rightarrow> jsstring \<Rightarrow> jsstring \<Rightarrow> exn + (bool \<times> jsstring) list" where
  "highlight_try U text query =
     (case RegExp U ([40] @ escapeQuery query @ [41]) of
        Inl e \<Rightarrow> Inl e
      | Inr r \<Rightarrow>
          Inr (map (\<lambda>part. (toLowerCase U part = toLowerCase U query, part))
                 (split_regexp U r text)))"

definition highlight_catch :: "jsstring \<Rightarrow> exn \<Rightarrow> rendering \<times> (jsstring \<times> exn) list" where
  "highlight_catch text error = (Text text, [(units ''Error highlighting match:'', error)])"

definition highlightMatch ::
  "runtime \<Rightarrow> jsstring \<Rightarrow> jsstring \<Rightarrow> rendering \<times> (jsstring \<times> exn) list" where
  "highlightMatch U text query =
     (if trim query = [] then (Text text, [])
      else (case highlight_try U text query of
              Inr spans \<Rightarrow> (Spans spans, [])
            | Inl error \<Rightarrow> highlight_catch text error))"

fun rendered :: "rendering \<Rightarrow> jsstring" where
  "rendered (Text t) = t"
| "rendered (Spans spans) = concat (map snd spans)"

section \<open>getLocationDetails\<close>

text \<open>
  \<open>split\<close> with a string separator cuts at each occurrence found by \<open>indexOf\<close> from the
  end of the previous one; the empty separator cuts between all code units. \<open>join\<close> is
  \<open>Array.prototype.join\<close>. Index 0 of an empty array would be \<open>undefined\<close>, here \<open>None\<close>.
\<close>

fun indexOf :: "jsstring \<Rightarrow> jsstring \<Rightarrow> nat option" where
  "indexOf sep [] = (if sep = [] then Some 0 else None)"
| "indexOf sep (x # xs) =
     (if prefix sep (x # xs) then Some 0 else map_option Suc (indexOf sep xs))"

function split_string :: "jsstring \<Rightarrow> jsstring \<Rightarrow> jsstring list" where
  "split_string sep S =
     (if sep = [] then map (\<lambda>c. [c]) S
      else (case indexOf sep S of
              None \<Rightarrow> [S]
            | Some i \<Rightarrow> take i S # split_string sep (drop (i + length sep) S)))"
  by pat_completeness auto
termination
proof (relation "measure (\<lambda>(sep, S). length S)")
  show "wf (measure (\<lambda>(sep :: jsstring, S :: jsstring). length S))"
    by simp
next
  fix sep S :: jsstring and i
  assume sep: "sep \<noteq> []" and found: "indexOf sep S = Some i"
  have bound: "indexOf sep S = Some i \<Longrightarrow> i + length sep \<le> length S" for i
  proof (induction S arbitrary: i)
    case Nil
    then show ?case by (simp split: if_splits)
  next
    case (Cons x xs)
    show ?case
    proof (cases "prefix sep (x # xs)")
      case True
      then have "length sep \<le> length (x # xs)"
        by (rule prefix_length_le)
      with True Cons.prems show ?thesis by simp
    next
      case False
      with Cons.prems obtain j where "indexOf sep xs = Some j" and "i = Suc j"
        by auto
      with Cons.IH [of j] show ?thesis by simp
    qed
  qed
  from bound [OF found] have "i + length sep \<le> length S" .
  with sep show "((sep, drop (i + length sep) S), (sep, S)) \<in> measure (\<lambda>(sep, S). length S)"
    by (cases sep) auto
qed

declare split_string.simps [simp del]

fun join :: "jsstring \<Rightarrow> jsstring list \<Rightarrow> jsstring" where
  "join sep [] = []"
| "join sep [p] = p"
| "join sep (p # ps) = p @ sep @ join sep ps"

record location_details =
  mainText :: "jsstring option"
  secondaryText :: jsstring

definition getLocationDetails :: "jsstring \<Rightarrow> location_details" where
  "getLocationDetails displayName =
     (let parts = split_string [44, 32] displayName
      in \<lparr>mainText = (case parts of [] \<Rightarrow> None | p # _ \<Rightarrow> Some p),
          secondaryText = join [44, 32] (drop 1 parts)\<rparr>)"

section \<open>The debounce scheduler\<close>

text \<open>
  Modelled from the spec: the hook \<open>useDebounce\<close> (\<open>hooks/useDebounce\<close>) is imported by
  SearchBar.tsx and is not among the sources. The state of the spec's scheduler, with time
  in milliseconds: \<open>timer\<close> holds the due time and argument of the armed timer,
  \<open>executed\<close> the runs of the wrapped function with their times.
\<close>

record 'a debouncer =
  timer :: "(nat \<times> 'a) option"
  executed :: "(nat \<times> 'a) list"

definition idle :: "'a debouncer" where
  "idle = \<lparr>timer = None, executed = []\<rparr>"

text \<open>
  Modelled from the spec: \<open>useDebounce\<close> is not among the sources. Time passes up to
  \<open>t\<close>; a timer that fires runs the function once with the argument of its call.
\<close>

definition elapse :: "nat \<Rightarrow> 'a debouncer \<Rightarrow> 'a debouncer" where
  "elapse t d =
     (case timer d of
        None \<Rightarrow> d
      | Some (due, arg) \<Rightarrow>
          if due \<le> t then d\<lparr>timer := None, executed := executed d @ [(due, arg)]\<rparr> else d)"

text \<open>
  Modelled from the spec: \<open>useDebounce\<close> is not among the sources. A call of the wrapped
  invoker at time \<open>t\<close> cancels the call that is scheduled and has not fired, and arms a
  new timer; \<open>calls\<close> is a sequence of such calls, each with its time.
\<close>

definition debounced :: "nat \<Rightarrow> nat \<Rightarrow> 'a \<Rightarrow> 'a debouncer \<Rightarrow> 'a debouncer" where
  "debounced delayMs t arg d = (elapse t d)\<lparr>timer := Some (t + delayMs, arg)\<rparr>"

fun calls :: "nat \<Rightarrow> (nat \<times> 'a) list \<Rightarrow> 'a debouncer \<Rightarrow> 'a debouncer" where
  "calls delayMs [] d = d"
| "calls delayMs ((t, arg) # cs) d = calls delayMs cs (debounced delayMs t arg d)"

text \<open>
  Modelled from the spec: \<open>useDebounce\<close> is not among the sources. No further call
  arrives, and the armed timer fires at its due time.
\<close>

definition fire :: "'a debouncer \<Rightarrow> 'a debouncer" where
  "fire d =
     (case timer d of
        None \<Rightarrow> d
      | Some (due, arg) \<Rightarrow> d\<lparr>timer := None, executed := executed d @ [(due, arg)]\<rparr>)"

text \<open>
  A burst: calls in time order, each less than the delay after the one before. The
  component wraps its search callback with a delay of 300.
\<close>

fun burst :: "nat \<Rightarrow> (nat \<times> 'a) list \<Rightarrow> bool" where
  "burst delayMs ((t, a) # (t', a') # cs) =
     (t \<le> t' \<and> t' < t + delayMs \<and> burst delayMs ((t', a') # cs))"
| "burst delayMs cs = True"

definition debouncedSearch_delay :: nat where
  "debouncedSearch_delay = 300"

section \<open>Shapes and sample data used in the statements\<close>

text \<open>
  The pieces of a split by a pattern with one group alternate: text between matches, then
  the text the group captured, and so on, ending with text between matches.
  \<open>leftmost f lit ps\<close> says that the pieces \<open>ps\<close> cut their text at the occurrences of
  the literal found from left to right without overlap, code units compared after \<open>f\<close>:
  a piece between matches is followed by an occurrence of the literal, which is the next
  piece, and no occurrence starts inside a piece between matches. \<open>marked_alternately\<close>
  says of the marks of the pieces that exactly the captured pieces are marked.
\<close>

fun leftmost :: "(nat \<Rightarrow> nat) \<Rightarrow> jsstring \<Rightarrow> jsstring list \<Rightarrow> bool" where
  "leftmost f lit [] = False"
| "leftmost f lit [plain] = (\<forall>q < length plain. \<not> occurs_at f lit plain q)"
| "leftmost f lit (plain # m # ps) =
     ((\<forall>q < length plain. \<not> occurs_at f lit (plain @ m @ concat ps) q)
      \<and> occurs_at f lit (plain @ m @ concat ps) (length plain)
      \<and> length m = length lit
      \<and> leftmost f lit ps)"

fun marked_alternately :: "bool list \<Rightarrow> bool" where
  "marked_alternately [] = False"
| "marked_alternately [b] = (\<not> b)"
| "marked_alternately (b # c # bs) = (\<not> b \<and> c \<and> marked_alternately bs)"

text \<open>Two result lists, and two runs of the component on them.\<close>

definition R1 :: "SearchResult list" where
  "R1 = [\<lparr>display_name = units ''Aachen, Germany'', address = None\<rparr>]"

definition R2 :: "SearchResult list" where
  "R2 = [\<lparr>display_name = units ''Abu Dhabi, United Arab Emirates'', address = None\<rparr>,
         \<lparr>display_name = units ''Abuja, Nigeria'', address = None\<rparr>]"

text \<open>
  The user types \<open>a\<close>, the search for \<open>a\<close> starts, the user types \<open>b\<close>, the search for
  \<open>ab\<close> starts; the lookup for \<open>ab\<close> answers first with \<open>R2\<close>, the lookup for \<open>a\<close>
  answers afterwards with \<open>R1\<close>.
\<close>

definition stale_schedule :: "event list" where
  "stale_schedule =
     [Change (units ''a''), Invoke (units ''a''), Change (units ''ab''), Invoke (units ''ab''),
      Settle (units ''ab'') (Inr R2), Settle (units ''a'') (Inr R1)]"

text \<open>
  The list \<open>R2\<close> for \<open>ab\<close> is on display; the user deletes a letter and, before the new
  search answers, moves the selection to the first entry; then the search for \<open>a\<close>
  answers with \<open>R1\<close>.
\<close>

definition navigate_schedule :: "event list" where
  "navigate_schedule =
     [Change (units ''ab''), Invoke (units ''ab''), Settle (units ''ab'') (Inr R2),
      Change (units ''a''), Navigate 0, Invoke (units ''a''), Settle (units ''a'') (Inr R1)]"

section \<open>Basic facts\<close>

lemma units_simps: "units [] = []" "units (c # s) = of_char c # units s"
  by (simp_all add: units_def)

lemma trim_blank_iff: "trim s = [] \<longleftrightarrow> (\<forall>c \<in> set s. white_space c)"
proof
  assume "trim s = []"
  then have "dropWhile white_space (rev (dropWhile white_space s)) = []"
    by (simp add: trim_def)
  then have "\<forall>c \<in> set (rev (dropWhile white_space s)). white_space c"
    by simp
  then have all: "\<forall>c \<in> set (dropWhile white_space s). white_space c"
    by simp
  have "dropWhile white_space s = []"
  proof (cases "dropWhile white_space s")
    case Nil
    then show ?thesis .
  next
    case (Cons x xs)
    then have "\<not> white_space x"
      using hd_dropWhile [of white_space s] by simp
    moreover have "white_space x"
      using all Cons by simp
    ultimately show ?thesis by simp
  qed
  then show "\<forall>c \<in> set s. white_space c"
    by simp
next
  assume "\<forall>c \<in> set s. white_space c"
  then have blank: "dropWhile white_space s = []"
    by simp
  show "trim s = []"
    unfolding trim_def blank by simp
qed

lemma trim_nonblank: "\<not> white_space c \<Longrightarrow> trim (c # s) \<noteq> []"
  by (simp add: trim_blank_iff)

lemma latin_exact_basic_latin: "latin_exact basic_latin"
  by (simp add: latin_exact_def basic_latin_def)

lemma run_append: "run (es @ fs) w = run fs (run es w)"
  by (induction es arbitrary: w) simp_all

section \<open>The search callback and the commit\<close>

text \<open>
  Claim C2. For every state and every result, \<open>handleSelectResult\<close> (the commit, also
  what a click on an entry runs) passes exactly that result to \<open>onLocationSelect\<close>, once:
  the trace of the callback grows by that one result. Afterwards the query is the empty
  string, the result list is empty and the selection index is -1, as in the initial state.
\<close>

theorem handleSelectResult_commit:
  "selections (handleSelectResult result w) = selections w @ [result]
   \<and> searchQuery (handleSelectResult result w) = searchQuery initial
   \<and> searchResults (handleSelectResult result w) = searchResults initial
   \<and> selectedIndex (handleSelectResult result w) = selectedIndex initial
   \<and> searchQuery initial = [] \<and> searchResults initial = [] \<and> selectedIndex initial = - 1
   \<and> step (Click result) w = handleSelectResult result w"
  by (simp add: handleSelectResult_def initial_def)

theorem handleSelectResult_commit_witness:
  "selections (handleSelectResult (hd R1) (run stale_schedule initial)) = [hd R1]
   \<and> searchQuery (handleSelectResult (hd R1) (run stale_schedule initial)) = []
   \<and> searchResults (handleSelectResult (hd R1) (run stale_schedule initial)) = []
   \<and> selectedIndex (handleSelectResult (hd R1) (run stale_schedule initial)) = - 1"
  using handleSelectResult_commit [of "hd R1" "run stale_schedule initial"]
  by (simp add: stale_schedule_def initial_def handleInputChange_def search_begin_def
      search_resume_def)

text \<open>
  Claim C3. When the text consists of white space only (the empty text included), the
  search callback returns without an exception, the result list is empty afterwards, the
  loading flag is not written (so it is false afterwards whenever it was false before),
  and nothing is sent to the geocoding client.
\<close>

theorem runSearch_blank:
  assumes "\<forall>c \<in> set text. white_space c"
  shows "fst (runSearch client text w) = None
   \<and> searchResults (snd (runSearch client text w)) = []
   \<and> isLoading (snd (runSearch client text w)) = isLoading w
   \<and> geocoding_calls (snd (runSearch client text w)) = geocoding_calls w"
proof -
  from assms have "trim text = []"
    by (simp add: trim_blank_iff)
  then have "runSearch client text w = (None, w\<lparr>searchResults := []\<rparr>)"
    by (simp add: runSearch_def search_begin_def)
  then show ?thesis by simp
qed

theorem runSearch_blank_witness:
  "fst (runSearch (\<lambda>q. Inr R1) [32, 9] initial) = None
   \<and> searchResults (snd (runSearch (\<lambda>q. Inr R1) [32, 9] initial)) = []
   \<and> isLoading (snd (runSearch (\<lambda>q. Inr R1) [32, 9] initial)) = False
   \<and> geocoding_calls (snd (runSearch (\<lambda>q. Inr R1) [32, 9] initial)) = []"
proof -
  have blank: "\<forall>c \<in> set [32, 9 :: nat]. white_space c"
    by (simp add: white_space_def)
  show ?thesis
    using runSearch_blank [OF blank, of "\<lambda>q. Inr R1" initial] by (simp add: initial_def)
qed

text \<open>
  Claim C4. For a query that is not blank, when the geocoding client fails with any
  error, the callback ends without an exception; afterwards the result list is empty, the
  loading flag is false and the error has been written to the console. The query text, the
  selection index and the calls of the selection callback are as before.
\<close>

theorem runSearch_failure:
  assumes "trim query \<noteq> []" and "client query = Inl error"
  shows "fst (runSearch client query w) = None
   \<and> searchResults (snd (runSearch client query w)) = []
   \<and> isLoading (snd (runSearch client query w)) = False
   \<and> console (snd (runSearch client query w)) = console w @ [(units ''Search failed:'', error)]
   \<and> geocoding_calls (snd (runSearch client query w)) = geocoding_calls w @ [query]
   \<and> searchQuery (snd (runSearch client query w)) = searchQuery w
   \<and> selectedIndex (snd (runSearch client query w)) = selectedIndex w
   \<and> selections (snd (runSearch client query w)) = selections w"
  using assms by (simp add: runSearch_def search_begin_def search_resume_def)

theorem runSearch_failure_witness:
  "fst (runSearch (\<lambda>q. Inl (Thrown (units ''Failed to fetch''))) (units ''Oslo'') initial) = None
   \<and> searchResults
        (snd (runSearch (\<lambda>q. Inl (Thrown (units ''Failed to fetch''))) (units ''Oslo'') initial))
       = []
   \<and> isLoading
        (snd (runSearch (\<lambda>q. Inl (Thrown (units ''Failed to fetch''))) (units ''Oslo'') initial))
       = False
   \<and> console
        (snd (runSearch (\<lambda>q. Inl (Thrown (units ''Failed to fetch''))) (units ''Oslo'') initial))
       = [(units ''Search failed:'', Thrown (units ''Failed to fetch''))]"
proof -
  have nonblank: "trim (units ''Oslo'') \<noteq> []"
    by (simp add: units_simps trim_nonblank white_space_def)
  have fails: "(\<lambda>q. Inl (Thrown (units ''Failed to fetch''))) (units ''Oslo'')
      = (Inl (Thrown (units ''Failed to fetch'')) :: exn + SearchResult list)"
    by simp
  show ?thesis
    using runSearch_failure [OF nonblank fails, of initial] by (simp add: initial_def)
qed

section \<open>Responses that arrive out of order\<close>

text \<open>
  Claim C1 says that a response is applied only if it belongs to the query that is
  current, so that a late response for \<open>a\<close> never replaces the results of \<open>ab\<close>. The
  callback keeps no tag of its query: in the run \<open>stale_schedule\<close> the query on display is
  \<open>ab\<close> and the list on display is \<open>R1\<close>, the late answer for \<open>a\<close>, not \<open>R2\<close>.
\<close>

theorem stale_response_counterexample:
  "searchQuery (run stale_schedule initial) = units ''ab''
   \<and> searchResults (run stale_schedule initial) = R1
   \<and> R1 \<noteq> R2"
  by (simp add: stale_schedule_def initial_def handleInputChange_def search_begin_def
      search_resume_def R1_def R2_def)

text \<open>
  Claim C1, as the code has it. Every response is applied when it arrives, whatever has
  happened before and whichever query it was sent for: after a fulfilled lookup the result
  list is the list it returned, after a rejected lookup it is empty. The list on display
  is the one of the lookup that settled last.
\<close>

theorem response_applied_on_arrival:
  "searchResults (run (es @ [Settle q (Inr results)]) w) = results
   \<and> searchResults (run (es @ [Settle q (Inl error)]) w) = []"
  by (simp add: run_append search_resume_def)

theorem response_applied_on_arrival_witness:
  "searchResults
     (run ([Invoke (units ''a''), Invoke (units ''ab''), Settle (units ''ab'') (Inr R2)]
        @ [Settle (units ''a'') (Inr R1)]) initial) = R1"
  using response_applied_on_arrival
    [of "[Invoke (units ''a''), Invoke (units ''ab''), Settle (units ''ab'') (Inr R2)]"
        "units ''a''" R1 initial]
  by simp

section \<open>The selection index\<close>

text \<open>
  Claim C9 says that the selection index is -1 after every operation that replaces the
  result list, a search that resolves included. The callback writes the result list only:
  in the run \<open>navigate_schedule\<close> the list is replaced by \<open>R1\<close> and the index stays 0.
\<close>

theorem selection_kept_counterexample:
  "searchResults (run navigate_schedule initial) = R1
   \<and> selectedIndex (run navigate_schedule initial) = 0"
  by (simp add: navigate_schedule_def initial_def handleInputChange_def search_begin_def
      search_resume_def)

text \<open>
  Claim C9, as the code has it. The selection index is set to -1 by every change of the
  input (which requests a new search), by Escape (which also empties the list) and by a
  commit (which also empties the list).
\<close>

theorem selection_reset:
  "selectedIndex (step (Change v) w) = - 1
   \<and> selectedIndex (step Escape w) = - 1 \<and> searchResults (step Escape w) = []
   \<and> selectedIndex (step (Click result) w) = - 1 \<and> searchResults (step (Click result) w) = []"
  by (simp add: handleInputChange_def onEscape_def handleSelectResult_def)

theorem selection_reset_witness:
  "selectedIndex (step (Change (units ''a'')) (run navigate_schedule initial)) = - 1
   \<and> selectedIndex (step Escape (run navigate_schedule initial)) = - 1
   \<and> selectedIndex (step (Click (hd R1)) (run navigate_schedule initial)) = - 1"
  using selection_reset [of "units ''a''" "run navigate_schedule initial" "hd R1"]
  by simp

section \<open>The debounce scheduler\<close>

lemma calls_burst:
  "burst delayMs ((t, a) # cs) \<Longrightarrow> (\<forall>due b. timer d = Some (due, b) \<longrightarrow> t < due) \<Longrightarrow>
   calls delayMs ((t, a) # cs) d
     = d\<lparr>timer := Some (fst (last ((t, a) # cs)) + delayMs, snd (last ((t, a) # cs)))\<rparr>"
proof (induction cs arbitrary: t a d)
  case Nil
  then show ?case
    by (auto simp: debounced_def elapse_def split: option.splits)
next
  case (Cons c cs)
  obtain t' a' where c: "c = (t', a')" by (cases c)
  from Cons.prems(2) have quiet: "elapse t d = d"
    by (auto simp: elapse_def split: option.splits)
  let ?d = "d\<lparr>timer := Some (t + delayMs, a)\<rparr>"
  from Cons.prems(1) c have b: "burst delayMs ((t', a') # cs)" and lt: "t' < t + delayMs"
    by simp_all
  have "calls delayMs ((t', a') # cs) ?d
     = ?d\<lparr>timer := Some (fst (last ((t', a') # cs)) + delayMs, snd (last ((t', a') # cs)))\<rparr>"
    using b lt by (intro Cons.IH) simp_all
  then show ?case
    using quiet c by (simp add: debounced_def)
qed

text \<open>
  Claim C8. For every burst of calls of the debounced invoker, each less than the delay
  after the one before, the wrapped function runs exactly once, one delay after the last
  call and with the argument of the last call; the earlier calls of the burst never run.
  With the delay of 300 that the component uses, calls at 0, 50, 100 and 150 give one run
  at 450.
\<close>

theorem debounce_burst:
  assumes "cs \<noteq> []" and "burst delayMs cs"
  shows "executed (fire (calls delayMs cs idle)) = [(fst (last cs) + delayMs, snd (last cs))]"
proof -
  from assms(1) obtain t a cs' where cs: "cs = (t, a) # cs'"
    by (cases cs) auto
  have "calls delayMs ((t, a) # cs') idle
     = idle\<lparr>timer := Some (fst (last ((t, a) # cs')) + delayMs, snd (last ((t, a) # cs')))\<rparr>"
    using assms(2) cs by (intro calls_burst) (simp_all add: idle_def)
  then show ?thesis
    using cs by (simp add: fire_def idle_def)
qed

theorem debounce_burst_witness:
  "executed (fire (calls debouncedSearch_delay
       [(0, units ''o''), (50, units ''os''), (100, units ''osl''), (150, units ''oslo'')] idle))
     = [(450, units ''oslo'')]"
proof -
  have b: "burst debouncedSearch_delay
       [(0, units ''o''), (50, units ''os''), (100, units ''osl''), (150, units ''oslo'')]"
    by (simp add: debouncedSearch_delay_def)
  show ?thesis
    using debounce_burst [OF _ b] by (simp add: debouncedSearch_delay_def)
qed

section \<open>highlightMatch\<close>

lemma escaped_class_syntax: "escaped_class = SyntaxCharacter"
  by (auto simp: escaped_class_def SyntaxCharacter_def)

lemma literal_atoms_plain:
  "c \<notin> SyntaxCharacter \<Longrightarrow> literal_atoms (c # s) = map_option ((#) c) (literal_atoms s)"
  by (cases s) (auto simp: SyntaxCharacter_def)

lemma literal_atoms_escape:
  "c \<in> SyntaxCharacter \<Longrightarrow> literal_atoms (92 # c # s) = map_option ((#) c) (literal_atoms s)"
  by simp

lemma literal_atoms_escapeQuery: "literal_atoms (escapeQuery query) = Some query"
proof (induction query)
  case Nil
  then show ?case by (simp add: escapeQuery_def)
next
  case (Cons c query)
  have step: "escapeQuery (c # query)
      = (if c \<in> SyntaxCharacter then [92, c] else [c]) @ escapeQuery query"
    by (simp add: escapeQuery_def escaped_class_syntax)
  show ?case
  proof (cases "c \<in> SyntaxCharacter")
    case True
    with Cons.IH show ?thesis
      unfolding step by (simp add: literal_atoms_escape del: literal_atoms.simps)
  next
    case False
    with Cons.IH show ?thesis
      unfolding step by (simp add: literal_atoms_plain del: literal_atoms.simps)
  qed
qed

lemma length_escapeQuery: "length query \<le> length (escapeQuery query)"
  by (induction query) (simp_all add: escapeQuery_def)

lemma RegExp_escapeQuery:
  "RegExp U ([40] @ escapeQuery query @ [41])
     = (case pattern_error U ([40] @ escapeQuery query @ [41]) of
          Some error \<Rightarrow> Inl error
        | None \<Rightarrow> Inr (Capture query))"
  by (simp add: RegExp_def literal_atoms_escapeQuery)

lemma highlight_try_spans:
  "highlight_try U text query
     = (case pattern_error U ([40] @ escapeQuery query @ [41]) of
          Some error \<Rightarrow> Inl error
        | None \<Rightarrow>
            Inr (map (\<lambda>part. (toLowerCase U part = toLowerCase U query, part))
                   (split_regexp U (Capture query) text)))"
  by (simp add: highlight_try_def RegExp_escapeQuery del: append.simps split: option.splits)

lemma concat_split_loop:
  "p \<le> q \<Longrightarrow> concat A = take p S \<Longrightarrow> concat (split_loop U lit S p q A) = S"
proof (induction U lit S p q A rule: split_loop.induct)
  case (1 U lit S p q A)
  show ?case
  proof (cases "q < length S")
    case False
    with "1.prems" show ?thesis by (simp add: split_loop.simps [of U lit S p q A])
  next
    case inside: True
    show ?thesis
    proof (cases "match_at U lit S q")
      case None
      with inside "1.IH"(1) "1.prems" show ?thesis
        by (simp add: split_loop.simps [of U lit S p q A])
    next
      case (Some e)
      then have e: "e = q + length lit" "e \<le> length S"
        by (auto simp: match_at_def occurs_at_def split: if_splits)
      show ?thesis
      proof (cases "e = p")
        case True
        with inside Some "1.IH"(2) "1.prems" show ?thesis
          by (simp add: split_loop.simps [of U lit S p q A])
      next
        case False
        have pq: "take p S @ take (q - p) (drop p S) = take q S"
          using "1.prems"(1) by (metis le_add_diff_inverse take_add)
        have qe: "take q S @ take (e - q) (drop q S) = take e S"
          using e(1) by (metis le_add1 le_add_diff_inverse take_add)
        have "concat (A @ [take (q - p) (drop p S), take (e - q) (drop q S)])
            = (take p S @ take (q - p) (drop p S)) @ take (e - q) (drop q S)"
          using "1.prems"(2) by simp
        also have "\<dots> = take e S"
          unfolding pq qe ..
        finally have "concat (A @ [take (q - p) (drop p S), take (e - q) (drop q S)]) = take e S" .
        with inside Some False "1.IH"(3) [of e] show ?thesis
          by (simp add: split_loop.simps [of U lit S p q A])
      qed
    qed
  qed
qed

lemma concat_split_regexp: "concat (split_regexp U r S) = S"
  by (cases r) (simp add: split_regexp_def concat_split_loop)

lemma occurs_at_drop:
  "p \<le> length S \<Longrightarrow> occurs_at f lit (drop p S) q = occurs_at f lit S (p + q)"
  by (auto simp: occurs_at_def add.commute)

lemma leftmost_split_loop:
  "lit \<noteq> [] \<Longrightarrow> p \<le> q \<Longrightarrow> p \<le> length S \<Longrightarrow>
   (\<forall>j. p \<le> j \<and> j < q \<longrightarrow> \<not> occurs_at (canonicalize U) lit S j) \<Longrightarrow>
   \<exists>ps. split_loop U lit S p q A = A @ ps \<and> concat ps = drop p S
      \<and> leftmost (canonicalize U) lit ps"
proof (induction U lit S p q A rule: split_loop.induct)
  case (1 U lit S p q A)
  let ?f = "canonicalize U"
  show ?case
  proof (cases "q < length S")
    case False
    have "\<not> occurs_at ?f lit (drop p S) j" if "j < length (drop p S)" for j
    proof -
      from that False have "p \<le> p + j" "p + j < q" by simp_all
      with "1.prems"(4) have "\<not> occurs_at ?f lit S (p + j)" by blast
      with "1.prems"(3) show ?thesis by (simp add: occurs_at_drop)
    qed
    then have "leftmost ?f lit [drop p S]" by simp
    with False show ?thesis
      by (simp add: split_loop.simps [of U lit S p q A])
  next
    case inside: True
    show ?thesis
    proof (cases "match_at U lit S q")
      case None
      then have "\<not> occurs_at ?f lit S q"
        by (simp add: match_at_def split: if_splits)
      with "1.prems"(4) have "\<forall>j. p \<le> j \<and> j < q + 1 \<longrightarrow> \<not> occurs_at ?f lit S j"
        by (auto simp: less_Suc_eq)
      with "1.IH"(1) [OF inside None "1.prems"(1) _ "1.prems"(3)] "1.prems"(2)
      have "\<exists>ps. split_loop U lit S p (q + 1) A = A @ ps \<and> concat ps = drop p S
          \<and> leftmost ?f lit ps"
        by simp
      with inside None show ?thesis
        by (simp add: split_loop.simps [of U lit S p q A])
    next
      case (Some e)
      then have occ: "occurs_at ?f lit S q" and e: "e = q + length lit"
        by (auto simp: match_at_def split: if_splits)
      from occ e have bound: "e \<le> length S"
        by (simp add: occurs_at_def)
      from e "1.prems"(1,2) have differ: "e \<noteq> p"
        by (cases lit) auto
      let ?plain = "take (q - p) (drop p S)" and ?m = "take (e - q) (drop q S)"
      have "\<forall>j. e \<le> j \<and> j < e \<longrightarrow> \<not> occurs_at ?f lit S j"
        by auto
      from "1.IH"(3) [OF inside Some differ "1.prems"(1) le_refl bound this]
      obtain ps where ps: "split_loop U lit S e e (A @ [?plain, ?m]) = (A @ [?plain, ?m]) @ ps"
        "concat ps = drop e S" "leftmost ?f lit ps"
        by auto
      have tail: "?m @ drop e S = drop q S"
        using e by (metis add_diff_cancel_left' append_take_drop_id drop_drop add.commute)
      have whole: "?plain @ ?m @ concat ps = drop p S"
      proof -
        have "?plain @ drop q S = drop p S"
          using "1.prems"(2)
          by (metis append_take_drop_id drop_drop le_add_diff_inverse2)
        with tail ps(2) show ?thesis by simp
      qed
      have len_plain: "length ?plain = q - p"
        using inside by simp
      have len_m: "length ?m = length lit"
        using e bound by simp
      have before: "\<not> occurs_at ?f lit (drop p S) j" if "j < q - p" for j
      proof -
        from that have "p \<le> p + j" "p + j < q" by simp_all
        with "1.prems"(4) have "\<not> occurs_at ?f lit S (p + j)" by blast
        with "1.prems"(3) show ?thesis by (simp add: occurs_at_drop)
      qed
      have here: "occurs_at ?f lit (drop p S) (q - p)"
        using occ "1.prems"(2,3) by (simp add: occurs_at_drop)
      have "leftmost ?f lit (?plain # ?m # ps)"
        unfolding leftmost.simps whole len_plain
        using before here len_m ps(3) by blast
      moreover have "concat (?plain # ?m # ps) = drop p S"
        using whole by simp
      moreover have "split_loop U lit S p q A = A @ (?plain # ?m # ps)"
        using inside Some differ ps(1) by (simp add: split_loop.simps [of U lit S p q A])
      ultimately show ?thesis by blast
    qed
  qed
qed

lemma leftmost_split_regexp:
  assumes "query \<noteq> []"
  shows "leftmost (canonicalize U) query (split_regexp U (Capture query) text)"
proof (cases "text = []")
  case True
  with assms show ?thesis by (simp add: split_regexp_def)
next
  case False
  from leftmost_split_loop [OF assms, of 0 0 "text" U "[]"]
  obtain ps where "split_loop U query text 0 0 [] = ps" "leftmost (canonicalize U) query ps"
    by auto
  with False show ?thesis by (simp add: split_regexp_def)
qed

lemma pieces_shape:
  obtains "ps = []" | plain where "ps = [plain]" | plain m rest where "ps = plain # m # rest"
proof (cases ps)
  case Nil
  then show ?thesis by (rule that(1))
next
  case (Cons plain tail)
  then show ?thesis by (cases tail) (auto intro: that)
qed

lemma leftmost_unique:
  "leftmost f lit ps \<Longrightarrow> leftmost f lit ps' \<Longrightarrow> concat ps = concat ps' \<Longrightarrow> lit \<noteq> [] \<Longrightarrow>
   ps = ps'"
proof (induction f lit ps arbitrary: ps' rule: leftmost.induct)
  case (1 f lit)
  then show ?case by simp
next
  case (2 f lit plain)
  show ?case
  proof (cases ps' rule: pieces_shape)
    case 1
    with "2.prems" show ?thesis by simp
  next
    case (2 plain')
    with "2.prems" show ?thesis by simp
  next
    case (3 plain' m' rest')
    with "2.prems" have "occurs_at f lit plain (length plain')" "length plain' < length plain"
      by auto
    with "2.prems"(1) show ?thesis by simp
  qed
next
  case (3 f lit plain m ps)
  show ?case
  proof (cases ps' rule: pieces_shape)
    case 1
    with "3.prems" show ?thesis by simp
  next
    case (2 plain')
    with "3.prems" have "occurs_at f lit plain' (length plain)" "length plain < length plain'"
      by auto
    with "3.prems"(2) 2 show ?thesis by simp
  next
    case (3 plain' m' rest')
    then have ps': "ps' = plain' # m' # rest'" by simp
    let ?S = "plain @ m @ concat ps"
    from "3.prems"(3) ps' have same: "?S = plain' @ m' @ concat rest'" by simp
    from "3.prems"(1) have a: "\<forall>q < length plain. \<not> occurs_at f lit ?S q"
      "occurs_at f lit ?S (length plain)" "length m = length lit" "leftmost f lit ps"
      by simp_all
    from "3.prems"(2) ps' same have b: "\<forall>q < length plain'. \<not> occurs_at f lit ?S q"
      "occurs_at f lit ?S (length plain')" "length m' = length lit" "leftmost f lit rest'"
      by simp_all
    have "length plain = length plain'"
      using a(1,2) b(1,2) by (meson linorder_neqE_nat)
    with same have "plain = plain'" "m @ concat ps = m' @ concat rest'"
      by simp_all
    moreover from this(2) a(3) b(3) have "m = m'" "concat ps = concat rest'"
      by simp_all
    moreover from this(2) a(4) b(4) "3.prems"(4) have "ps = rest'"
      by (intro "3.IH")
    ultimately show ?thesis using ps' by simp
  qed
qed

lemma occurs_at_cong:
  assumes "\<forall>c \<in> set S \<union> set lit. f c = g c"
  shows "occurs_at f lit S q = occurs_at g lit S q"
proof -
  have "set (take (length lit) (drop q S)) \<subseteq> set S"
    by (meson set_drop_subset set_take_subset subset_trans)
  with assms have piece:
    "map f (take (length lit) (drop q S)) = map g (take (length lit) (drop q S))"
    by (intro map_cong) auto
  from assms have literal: "map f lit = map g lit"
    by (intro map_cong) auto
  show ?thesis
    unfolding occurs_at_def piece literal ..
qed

lemma leftmost_cong:
  "\<forall>c \<in> set (concat ps) \<union> set lit. f c = g c \<Longrightarrow> leftmost f lit ps = leftmost g lit ps"
proof (induction f lit ps rule: leftmost.induct)
  case (1 f lit)
  show ?case by simp
next
  case (2 f lit plain)
  then have "occurs_at f lit plain q = occurs_at g lit plain q" for q
    by (intro occurs_at_cong) simp
  then show ?case by simp
next
  case (3 f lit plain m ps)
  from "3.prems" have "occurs_at f lit (plain @ m @ concat ps) q
      = occurs_at g lit (plain @ m @ concat ps) q" for q
    by (intro occurs_at_cong) auto
  moreover from "3.prems" have "leftmost f lit ps = leftmost g lit ps"
    by (intro "3.IH") auto
  ultimately show ?case by simp
qed

lemma canonicalize_latin: "latin_exact U \<Longrightarrow> c < 128 \<Longrightarrow> canonicalize U c = upper_latin c"
  by (simp add: latin_exact_def canonicalize_def)

lemma lower_upper_latin: "lower_latin (upper_latin c) = lower_latin c"
  by (auto simp: lower_latin_def upper_latin_def)

lemma upper_lower_latin: "upper_latin (lower_latin c) = upper_latin c"
  by (auto simp: lower_latin_def upper_latin_def)

lemma folded_latin_iff:
  "map lower_latin a = map lower_latin b \<longleftrightarrow> map upper_latin a = map upper_latin b"
proof
  assume "map lower_latin a = map lower_latin b"
  then have "map upper_latin (map lower_latin a) = map upper_latin (map lower_latin b)"
    by simp
  then show "map upper_latin a = map upper_latin b"
    by (simp add: upper_lower_latin comp_def)
next
  assume "map upper_latin a = map upper_latin b"
  then have "map lower_latin (map upper_latin a) = map lower_latin (map upper_latin b)"
    by simp
  then show "map lower_latin a = map lower_latin b"
    by (simp add: lower_upper_latin comp_def)
qed

lemma leftmost_latin:
  assumes "latin_exact U" and "\<forall>c \<in> set text. c < 128" and "\<forall>c \<in> set query. c < 128"
    and "query \<noteq> []"
  shows "leftmost upper_latin query (split_regexp U (Capture query) text)"
proof -
  have "\<forall>c \<in> set (concat (split_regexp U (Capture query) text)) \<union> set query.
      canonicalize U c = upper_latin c"
    using assms(1-3) by (auto simp: concat_split_regexp canonicalize_latin)
  from leftmost_cong [OF this] leftmost_split_regexp [OF assms(4)]
  show ?thesis by simp
qed

lemma whole_piece_occurs:
  assumes "map upper_latin plain = map upper_latin lit"
  shows "occurs_at upper_latin lit (plain @ rest) 0"
proof -
  from assms have "length plain = length lit"
    by (rule map_eq_imp_length_eq)
  with assms show ?thesis by (simp add: occurs_at_def)
qed

lemma leftmost_marks:
  "leftmost upper_latin lit ps \<Longrightarrow> lit \<noteq> [] \<Longrightarrow>
   marked_alternately (map (\<lambda>part. map lower_latin part = map lower_latin lit) ps)"
proof (induction upper_latin lit ps rule: leftmost.induct)
  case (1 lit)
  then show ?case by simp
next
  case (2 lit plain)
  have "map lower_latin plain \<noteq> map lower_latin lit"
  proof
    assume "map lower_latin plain = map lower_latin lit"
    then have eq: "map upper_latin plain = map upper_latin lit"
      by (simp add: folded_latin_iff)
    then have "length plain = length lit"
      by (rule map_eq_imp_length_eq)
    with "2.prems"(2) have "0 < length plain" by simp
    moreover from whole_piece_occurs [OF eq, of "[]"] have "occurs_at upper_latin lit plain 0"
      by simp
    ultimately show False using "2.prems"(1) by auto
  qed
  then show ?case by simp
next
  case (3 lit plain m ps)
  have plain: "map lower_latin plain \<noteq> map lower_latin lit"
  proof
    assume "map lower_latin plain = map lower_latin lit"
    then have eq: "map upper_latin plain = map upper_latin lit"
      by (simp add: folded_latin_iff)
    then have "length plain = length lit"
      by (rule map_eq_imp_length_eq)
    with "3.prems"(2) have "0 < length plain" by simp
    moreover note whole_piece_occurs [OF eq, of "m @ concat ps"]
    ultimately show False using "3.prems"(1) by auto
  qed
  from "3.prems"(1) have "occurs_at upper_latin lit (plain @ m @ concat ps) (length plain)"
    and "length m = length lit"
    by simp_all
  then have "map upper_latin m = map upper_latin lit"
    by (simp add: occurs_at_def)
  then have m: "map lower_latin m = map lower_latin lit"
    by (simp add: folded_latin_iff)
  from "3.prems" have "marked_alternately
      (map (\<lambda>part. map lower_latin part = map lower_latin lit) ps)"
    by (intro "3.hyps") simp_all
  with plain m show ?case by simp
qed

lemma marks_latin:
  assumes "latin_exact U" and "\<forall>c \<in> set text. c < 128" and "\<forall>c \<in> set query. c < 128"
    and "query \<noteq> []"
  shows "marked_alternately
     (map (\<lambda>part. toLowerCase U part = toLowerCase U query)
        (split_regexp U (Capture query) text))"
proof -
  let ?ps = "split_regexp U (Capture query) text"
  have "toLowerCase U part = toLowerCase U query
      \<longleftrightarrow> map lower_latin part = map lower_latin query" if "part \<in> set ?ps" for part
  proof -
    from that have "set part \<subseteq> set (concat ?ps)" by auto
    with assms(2) have "\<forall>c \<in> set part. c < 128"
      by (auto simp: concat_split_regexp)
    with assms(1,3) show ?thesis
      by (simp add: latin_exact_def)
  qed
  then have same: "map (\<lambda>part. toLowerCase U part = toLowerCase U query) ?ps
      = map (\<lambda>part. map lower_latin part = map lower_latin query) ?ps"
    by (intro map_cong) simp_all
  from leftmost_marks [OF leftmost_latin [OF assms] assms(4)] show ?thesis
    unfolding same .
qed

lemma St_example:
  "highlightMatch basic_latin (units ''St. Louis, MO'') (units ''St.'')
     = (Spans [(False, []), (True, units ''St.''), (False, units '' Louis, MO'')], [])"
  by (simp add: highlightMatch_def highlight_try_spans split_regexp_def match_at_def
      occurs_at_def escapeQuery_def escaped_class_def
      split_loop.simps canonicalize_def basic_latin_def upper_latin_def lower_latin_def
      units_simps trim_nonblank white_space_def)

lemma st_example:
  "highlightMatch basic_latin (units ''St. Louis, MO'') (units ''st.'')
     = (Spans [(False, []), (True, units ''St.''), (False, units '' Louis, MO'')], [])"
  by (simp add: highlightMatch_def highlight_try_spans split_regexp_def match_at_def
      occurs_at_def escapeQuery_def escaped_class_def
      split_loop.simps canonicalize_def basic_latin_def upper_latin_def lower_latin_def
      units_simps trim_nonblank white_space_def)

text \<open>
  Claim C5. For every text and every query \<open>highlightMatch\<close> returns a value, in one of
  three ways. The escaped query is a pattern of the grammar that denotes the query itself,
  code unit by code unit, whatever syntax characters the query contains; so the \<open>try\<close>
  block fails exactly when the engine refuses the pattern for want of room. For a blank
  query the result is the text unmarked. When the \<open>try\<close> block fails with any error, the
  result is the text unmarked, and the error is written to the console. Otherwise the
  result is a list of spans and nothing is written: the spans put together are the text;
  they cut it at the occurrences of the query, found from left to right without overlap
  under the case folding of the engine, each occurrence a span of its own, and no other
  list of pieces does; and a span is marked exactly when its lower-cased text is the
  lower-cased query. When text and query are Basic Latin, the occurrences are those of
  the query compared letter by letter without regard to case, and exactly the spans of
  the occurrences are marked.
\<close>

theorem highlightMatch_safe:
  "literal_atoms (escapeQuery query) = Some query
   \<and> (highlight_try U text query = Inl error
        \<longleftrightarrow> pattern_error U ([40] @ escapeQuery query @ [41]) = Some error)
   \<and> (trim query = [] \<longrightarrow> highlightMatch U text query = (Text text, []))
   \<and> (trim query \<noteq> [] \<and> highlight_try U text query = Inl error \<longrightarrow>
        highlightMatch U text query
          = (Text text, [(units ''Error highlighting match:'', error)]))
   \<and> (trim query \<noteq> [] \<and> pattern_error U ([40] @ escapeQuery query @ [41]) = None \<longrightarrow>
        (\<exists>spans. highlight_try U text query = Inr spans
           \<and> highlightMatch U text query = (Spans spans, [])
           \<and> concat (map snd spans) = text
           \<and> leftmost (canonicalize U) query (map snd spans)
           \<and> (\<forall>ps. leftmost (canonicalize U) query ps \<and> concat ps = text
                 \<longrightarrow> ps = map snd spans)
           \<and> (\<forall>(matched, part) \<in> set spans.
                 matched \<longleftrightarrow> toLowerCase U part = toLowerCase U query)
           \<and> (latin_exact U \<and> (\<forall>c \<in> set text. c < 128) \<and> (\<forall>c \<in> set query. c < 128) \<longrightarrow>
                 leftmost upper_latin query (map snd spans)
                 \<and> marked_alternately (map fst spans))))"
proof (intro conjI impI)
  show "literal_atoms (escapeQuery query) = Some query"
    by (rule literal_atoms_escapeQuery)
next
  show "highlight_try U text query = Inl error
      \<longleftrightarrow> pattern_error U ([40] @ escapeQuery query @ [41]) = Some error"
    by (simp add: highlight_try_spans del: append.simps split: option.splits)
next
  assume "trim query = []"
  then show "highlightMatch U text query = (Text text, [])"
    by (simp add: highlightMatch_def)
next
  assume "trim query \<noteq> [] \<and> highlight_try U text query = Inl error"
  then show "highlightMatch U text query
      = (Text text, [(units ''Error highlighting match:'', error)])"
    by (simp add: highlightMatch_def highlight_catch_def)
next
  let ?parts = "split_regexp U (Capture query) text"
  let ?spans = "map (\<lambda>part. (toLowerCase U part = toLowerCase U query, part)) ?parts"
  assume accepted: "trim query \<noteq> [] \<and> pattern_error U ([40] @ escapeQuery query @ [41]) = None"
  then have nonempty: "query \<noteq> []"
    by (auto simp: trim_def)
  have body: "highlight_try U text query = Inr ?spans"
    using accepted by (simp add: highlight_try_spans del: append.simps)
  have result: "highlightMatch U text query = (Spans ?spans, [])"
    using accepted by (simp add: highlightMatch_def body)
  have parts: "map snd ?spans = ?parts"
    by (simp add: comp_def)
  have flags: "map fst ?spans = map (\<lambda>part. toLowerCase U part = toLowerCase U query) ?parts"
    by (simp add: comp_def)
  have whole: "concat (map snd ?spans) = text"
    unfolding parts by (rule concat_split_regexp)
  have cut: "leftmost (canonicalize U) query (map snd ?spans)"
    unfolding parts using nonempty by (rule leftmost_split_regexp)
  have only: "\<forall>ps. leftmost (canonicalize U) query ps \<and> concat ps = text
      \<longrightarrow> ps = map snd ?spans"
    using cut whole nonempty by (auto intro: leftmost_unique)
  have marks: "\<forall>(matched, part) \<in> set ?spans.
      matched \<longleftrightarrow> toLowerCase U part = toLowerCase U query"
    by auto
  have latin: "leftmost upper_latin query (map snd ?spans)
      \<and> marked_alternately (map fst ?spans)"
    if "latin_exact U \<and> (\<forall>c \<in> set text. c < 128) \<and> (\<forall>c \<in> set query. c < 128)"
    unfolding parts flags
    using that nonempty by (simp add: leftmost_latin marks_latin)
  show "\<exists>spans. highlight_try U text query = Inr spans
      \<and> highlightMatch U text query = (Spans spans, [])
      \<and> concat (map snd spans) = text
      \<and> leftmost (canonicalize U) query (map snd spans)
      \<and> (\<forall>ps. leftmost (canonicalize U) query ps \<and> concat ps = text
            \<longrightarrow> ps = map snd spans)
      \<and> (\<forall>(matched, part) \<in> set spans.
            matched \<longleftrightarrow> toLowerCase U part = toLowerCase U query)
      \<and> (latin_exact U \<and> (\<forall>c \<in> set text. c < 128) \<and> (\<forall>c \<in> set query. c < 128) \<longrightarrow>
            leftmost upper_latin query (map snd spans)
            \<and> marked_alternately (map fst spans))"
    using body result whole cut only marks latin by blast
qed

theorem highlightMatch_safe_witness:
  "highlightMatch basic_latin (units ''St. Louis, MO'') (units ''st.'')
     = (Spans [(False, []), (True, units ''St.''), (False, units '' Louis, MO'')], [])
   \<and> leftmost upper_latin (units ''st.'') [[], units ''St.'', units '' Louis, MO'']
   \<and> marked_alternately [False, True, False]
   \<and> highlight_try basic_latin (units ''Oslo'') (97 # replicate 32767 97) = Inl SyntaxError
   \<and> highlightMatch basic_latin (units ''Oslo'') (97 # replicate 32767 97)
       = (Text (units ''Oslo''), [(units ''Error highlighting match:'', SyntaxError)])"
proof -
  have nonblank: "trim (units ''st.'') \<noteq> []"
    by (simp add: units_simps trim_nonblank white_space_def)
  have room: "pattern_error basic_latin ([40] @ escapeQuery (units ''st.'') @ [41]) = None"
    by (simp add: basic_latin_def escapeQuery_def escaped_class_def units_simps)
  have latin: "latin_exact basic_latin \<and> (\<forall>c \<in> set (units ''St. Louis, MO''). c < 128)
      \<and> (\<forall>c \<in> set (units ''st.''). c < 128)"
    by (simp add: latin_exact_basic_latin units_simps)
  from highlightMatch_safe [of "units ''st.''" basic_latin "units ''St. Louis, MO''" SyntaxError]
    nonblank room latin
  obtain spans where spans:
    "highlightMatch basic_latin (units ''St. Louis, MO'') (units ''st.'') = (Spans spans, [])"
    "leftmost upper_latin (units ''st.'') (map snd spans)"
    "marked_alternately (map fst spans)"
    by blast
  from spans(1) have shape: "spans = [(False, []), (True, units ''St.''), (False, units '' Louis, MO'')]"
    by (simp add: st_example)
  have long: "trim (97 # replicate 32767 97) \<noteq> []"
    by (simp add: trim_nonblank white_space_def)
  have "length (97 # replicate 32767 (97 :: nat)) \<le> length (escapeQuery (97 # replicate 32767 97))"
    by (rule length_escapeQuery)
  then have "32768 \<le> length ([40] @ escapeQuery (97 # replicate 32767 97) @ [41])"
    by simp
  then have refused:
    "pattern_error basic_latin ([40] @ escapeQuery (97 # replicate 32767 97) @ [41])
       = Some SyntaxError"
    by (simp add: basic_latin_def)
  from highlightMatch_safe [of "97 # replicate 32767 97" basic_latin "units ''Oslo''" SyntaxError]
    long refused
  have "highlight_try basic_latin (units ''Oslo'') (97 # replicate 32767 97) = Inl SyntaxError"
    and "highlightMatch basic_latin (units ''Oslo'') (97 # replicate 32767 97)
       = (Text (units ''Oslo''), [(units ''Error highlighting match:'', SyntaxError)])"
    by blast+
  with spans shape show ?thesis
    by simp
qed

text \<open>
  Claim C10. For every text and query, the pieces that \<open>highlightMatch\<close> returns, put
  together in order, are exactly the text: the split keeps the matched text as the pieces
  captured by the group, so nothing is dropped, repeated or changed in case.
\<close>

theorem highlightMatch_text:
  "rendered (fst (highlightMatch U text query)) = text"
  by (simp add: highlightMatch_def highlight_try_spans highlight_catch_def concat_split_regexp
      comp_def split: option.splits)

theorem highlightMatch_text_witness:
  "rendered (Spans [(False, []), (True, units ''St.''), (False, units '' Louis, MO'')])
     = units ''St. Louis, MO''"
  using highlightMatch_text [of basic_latin "units ''St. Louis, MO''" "units ''St.''"] St_example
  by simp

section \<open>getFlagEmoji\<close>

lemma codePoints_utf16_pair:
  assumes "65536 \<le> x" "x \<le> 1114111" "65536 \<le> y" "y \<le> 1114111"
  shows "codePoints (utf16 x @ utf16 y) = [x, y]"
proof -
  have dec: "65536 + ((c - 65536) div 1024) * 1024 + (c - 65536) mod 1024 = c"
    if "65536 \<le> c" for c :: nat
    using that by simp
  have hi: "(c - 65536) div 1024 < 1024" if "c \<le> 1114111" for c :: nat
    using that by simp
  have lo: "(c - 65536) mod 1024 < 1024" for c :: nat
    by simp
  show ?thesis
    using assms dec [of x] dec [of y] hi [of x] hi [of y] lo [of x] lo [of y]
    by (simp add: utf16_def)
qed

text \<open>
  Claim C6. For a country code of two letters, with the runtime's case tables on Basic
  Latin, \<open>getFlagEmoji\<close> returns without an exception the string of two code points, each
  the upper-cased letter plus 127397, which are regional indicator symbols (U+1F1E6 to
  U+1F1FF). The result does not depend on the case of the letters: the lower-case and the
  upper-case code give the same string. For an absent country code it returns the empty
  string.
\<close>

theorem getFlagEmoji_letters:
  assumes "latin_exact U" and "letter a" and "letter b"
  shows "getFlagEmoji U (Some [a, b])
       = Inr (utf16 (127397 + upper_latin a) @ utf16 (127397 + upper_latin b))
   \<and> codePoints (utf16 (127397 + upper_latin a) @ utf16 (127397 + upper_latin b))
       = [127397 + upper_latin a, 127397 + upper_latin b]
   \<and> 127462 \<le> 127397 + upper_latin a \<and> 127397 + upper_latin a \<le> 127487
   \<and> 127462 \<le> 127397 + upper_latin b \<and> 127397 + upper_latin b \<le> 127487
   \<and> getFlagEmoji U (Some [lower_latin a, lower_latin b])
       = getFlagEmoji U (Some [upper_latin a, upper_latin b])
   \<and> getFlagEmoji U (Some [upper_latin a, upper_latin b]) = getFlagEmoji U (Some [a, b])
   \<and> getFlagEmoji U None = Inr []"
proof -
  have up: "toUpperCase U [c, d] = [upper_latin c, upper_latin d]" if "c < 128" "d < 128" for c d
    using assms(1) that by (simp add: latin_exact_def)
  have range: "65 \<le> upper_latin c \<and> upper_latin c \<le> 90" if "letter c" for c
    using that by (auto simp: letter_def upper_latin_def)
  have ascii: "c < 128 \<and> upper_latin c < 128 \<and> lower_latin c < 128" if "letter c" for c
    using that by (auto simp: letter_def upper_latin_def lower_latin_def)
  have idem: "upper_latin (lower_latin c) = upper_latin c \<and> upper_latin (upper_latin c) = upper_latin c"
    if "letter c" for c
    using that by (auto simp: letter_def upper_latin_def lower_latin_def)
  have flag: "getFlagEmoji U (Some [c, d])
       = Inr (utf16 (127397 + upper_latin c) @ utf16 (127397 + upper_latin d))"
    if "c < 128" "d < 128" "upper_latin c \<le> 90" "upper_latin d \<le> 90" for c d
    using that up [of c d] by (simp add: getFlagEmoji_def)
  have cps: "codePoints (utf16 (127397 + upper_latin a) @ utf16 (127397 + upper_latin b))
       = [127397 + upper_latin a, 127397 + upper_latin b]"
    using range [OF assms(2)] range [OF assms(3)] by (intro codePoints_utf16_pair) simp_all
  show ?thesis
    using flag [of a b] flag [of "lower_latin a" "lower_latin b"]
      flag [of "upper_latin a" "upper_latin b"]
      range [OF assms(2)] range [OF assms(3)] ascii [OF assms(2)] ascii [OF assms(3)]
      idem [OF assms(2)] idem [OF assms(3)] cps
    by (simp add: getFlagEmoji_def)
qed

theorem getFlagEmoji_letters_witness:
  "getFlagEmoji basic_latin (Some (units ''us'')) = Inr [55356, 56826, 55356, 56824]
   \<and> codePoints [55356, 56826, 55356, 56824] = [127482, 127480]
   \<and> getFlagEmoji basic_latin (Some (units ''us'')) = getFlagEmoji basic_latin (Some (units ''US''))
   \<and> getFlagEmoji basic_latin None = Inr []"
proof -
  have u: "letter 117" and s: "letter 115"
    by (simp_all add: letter_def)
  show ?thesis
    using getFlagEmoji_letters [OF latin_exact_basic_latin u s]
    by (simp add: units_simps upper_latin_def lower_latin_def utf16_def)
qed

section \<open>getLocationDetails\<close>

lemma indexOf_None: "sep \<noteq> [] \<Longrightarrow> indexOf sep S = None \<Longrightarrow> \<not> sublist sep S"
proof (induction S)
  case Nil
  then show ?case by simp
next
  case (Cons x xs)
  then show ?case
    by (auto simp: sublist_Cons_right split: if_splits)
qed

lemma indexOf_Some:
  "sep \<noteq> [] \<Longrightarrow> indexOf sep S = Some i \<Longrightarrow>
   S = take i S @ sep @ drop (i + length sep) S \<and> \<not> sublist sep (take i S)"
proof (induction S arbitrary: i)
  case Nil
  then show ?case by simp
next
  case (Cons x xs)
  show ?case
  proof (cases "prefix sep (x # xs)")
    case True
    then obtain zs where "x # xs = sep @ zs"
      by (auto simp: prefix_def)
    moreover from True Cons.prems have "i = 0" by simp
    ultimately show ?thesis
      using Cons.prems(1) by simp
  next
    case False
    with Cons.prems obtain j where j: "indexOf sep xs = Some j" "i = Suc j"
      by auto
    from Cons.IH [OF Cons.prems(1) j(1)]
    have IH: "xs = take j xs @ sep @ drop (j + length sep) xs" "\<not> sublist sep (take j xs)"
      by simp_all
    have "\<not> prefix sep (x # take j xs)"
    proof
      assume "prefix sep (x # take j xs)"
      moreover have "prefix (x # take j xs) (x # xs)"
        by (simp add: take_is_prefix)
      ultimately have "prefix sep (x # xs)"
        by (rule prefix_order.trans)
      with False show False ..
    qed
    with IH j(2) show ?thesis
      by (simp add: sublist_Cons_right)
  qed
qed

lemma split_string_nonempty: "sep \<noteq> [] \<Longrightarrow> split_string sep S \<noteq> []"
  by (subst split_string.simps) (simp split: option.splits)

lemma join_Cons: "ps \<noteq> [] \<Longrightarrow> join sep (p # ps) = p @ sep @ join sep ps"
  by (cases ps) simp_all

lemma join_split_string: "sep \<noteq> [] \<Longrightarrow> join sep (split_string sep S) = S"
proof (induction sep S rule: split_string.induct)
  case (1 sep S)
  show ?case
  proof (cases "indexOf sep S")
    case None
    with "1.prems" show ?thesis
      by (subst split_string.simps) simp
  next
    case (Some i)
    from "1.IH" [OF "1.prems" Some "1.prems"]
    have "join sep (split_string sep (drop (i + length sep) S)) = drop (i + length sep) S" .
    moreover have "S = take i S @ sep @ drop (i + length sep) S"
      using indexOf_Some [OF "1.prems" Some] by simp
    ultimately show ?thesis
      using "1.prems" Some
      by (subst split_string.simps) (simp add: join_Cons split_string_nonempty)
  qed
qed

lemma getLocationDetails_cases:
  "(indexOf [44, 32] d = None \<longrightarrow>
      getLocationDetails d = \<lparr>mainText = Some d, secondaryText = []\<rparr>)
   \<and> (\<forall>i. indexOf [44, 32] d = Some i \<longrightarrow>
      getLocationDetails d = \<lparr>mainText = Some (take i d), secondaryText = drop (i + 2) d\<rparr>)"
proof (intro conjI allI impI)
  assume "indexOf [44, 32] d = None"
  then show "getLocationDetails d = \<lparr>mainText = Some d, secondaryText = []\<rparr>"
    by (simp add: getLocationDetails_def split_string.simps [of _ d])
next
  fix i
  assume "indexOf [44, 32] d = Some i"
  then show "getLocationDetails d = \<lparr>mainText = Some (take i d), secondaryText = drop (i + 2) d\<rparr>"
    by (simp add: getLocationDetails_def split_string.simps [of _ d] join_split_string)
qed

text \<open>
  Claim C7. \<open>getLocationDetails\<close> splits the display name at the separator \<open>", "\<close>
  (code units 44, 32): \<open>mainText\<close> is the first piece and \<open>secondaryText\<close> the other
  pieces joined with the separator again. Nothing else is changed: \<open>mainText\<close> is always
  defined and holds no separator; if the display name holds a separator, the name is
  \<open>mainText\<close>, the separator and \<open>secondaryText\<close>; if it holds none, \<open>mainText\<close> is the
  whole name and \<open>secondaryText\<close> is empty.
\<close>

theorem getLocationDetails_decompose:
  "getLocationDetails d
     = \<lparr>mainText = Some (hd (split_string [44, 32] d)),
        secondaryText = join [44, 32] (tl (split_string [44, 32] d))\<rparr>
   \<and> (\<exists>m. mainText (getLocationDetails d) = Some m
     \<and> \<not> sublist [44, 32] m
     \<and> (if sublist [44, 32] d
        then d = m @ [44, 32] @ secondaryText (getLocationDetails d)
        else d = m \<and> secondaryText (getLocationDetails d) = []))"
proof
  have "split_string [44, 32] d \<noteq> []"
    by (rule split_string_nonempty) simp
  then show "getLocationDetails d
     = \<lparr>mainText = Some (hd (split_string [44, 32] d)),
        secondaryText = join [44, 32] (tl (split_string [44, 32] d))\<rparr>"
    by (cases "split_string [44, 32] d") (simp_all add: getLocationDetails_def)
next
  show "\<exists>m. mainText (getLocationDetails d) = Some m
     \<and> \<not> sublist [44, 32] m
     \<and> (if sublist [44, 32] d
        then d = m @ [44, 32] @ secondaryText (getLocationDetails d)
        else d = m \<and> secondaryText (getLocationDetails d) = [])"
  proof (cases "indexOf [44, 32] d")
    case None
    then have "\<not> sublist [44, 32] d"
      by (intro indexOf_None) simp_all
    with None show ?thesis
      using getLocationDetails_cases [of d] by simp
  next
    case (Some i)
    have split: "d = take i d @ [44, 32] @ drop (i + length [44, 32 :: nat]) d"
      and first: "\<not> sublist [44, 32] (take i d)"
      using indexOf_Some [OF _ Some] by simp_all
    have "sublist [44, 32] d"
      using split unfolding sublist_def by blast
    with Some split first show ?thesis
      using getLocationDetails_cases [of d] by simp
  qed
qed

theorem getLocationDetails_decompose_witness:
  "getLocationDetails (units ''Paris, '' @ [206] @ units ''le-de-France, France'')
     = \<lparr>mainText = Some (units ''Paris''),
        secondaryText = [206] @ units ''le-de-France, France''\<rparr>"
  using getLocationDetails_decompose [of "units ''Paris, '' @ [206] @ units ''le-de-France, France''"]
  by (simp add: getLocationDetails_def units_simps split_string.simps)


end
